theory Spec2Isabelle
  imports Main "HOL-Library.Multiset"
begin

section \<open>Edge categorisation of angr-management (\<open>angrmanagement/utils/cfg.py\<close>)\<close>

text \<open>
  The module is Python 2 (\<open>iteritems\<close>, \<open>keys()[0]\<close>). It holds two functions: the
  diagnostic helper \<open>_get_branch_instr\<close> (here \<open>get_branch_instr\<close>) and the classifier
  \<open>categorize_edges\<close>, which groups a list of edge objects by their source node and sets
  the \<open>sort\<close> attribute of some of them in place.

  Edges and nodes are Python objects owned by the CFG engine. They are modelled by an
  explicit store: an edge and a node are references, the store maps a reference to the
  attributes the code reads or writes. The input list of \<open>categorize_edges\<close> is a list
  of edge references, so the same edge object may occur in it more than once. A node
  reference stands for the node as a dictionary key: two edges are in one group exactly
  when their \<open>src\<close> is the same reference (the node class and its \<open>__eq__\<close> and
  \<open>__hash__\<close> belong to the CFG engine; the spec: identity is by address, one node for
  an address). Python integers are unbounded: \<open>int\<close>.
\<close>

subsection \<open>Data model\<close>

type_synonym node_ref = nat
type_synonym edge_ref = nat

text \<open>
  Modelled from the spec: the enumeration \<open>EdgeSort\<close> of the module \<open>.edge\<close>, which
  \<open>cfg.py\<close> imports. The three values the classifier assigns, and the default value
  that an edge holds when no rule has classified it.
\<close>

datatype EdgeSort = BACK_EDGE | TRUE_BRANCH | FALSE_BRANCH | UNCLASSIFIED

text \<open>
  An edge object: \<open>src\<close>, \<open>dst\<close> and \<open>sort\<close> (\<open>sort_e\<close>, since \<open>sort\<close> is a list function
  of HOL). A node object: \<open>addr\<close>, \<open>size\<close> (\<open>size_n\<close>) and the dictionary \<open>out_branches\<close>
  from instruction addresses to branch data, kept as an association list in the
  dictionary's iteration order (the helper takes the first key).
\<close>

record edge =
  src :: node_ref
  dst :: node_ref
  sort_e :: EdgeSort

record 'b node =
  addr :: int
  size_n :: int
  out_branches :: "(int \<times> 'b) list"

record 'b heap =
  nodes :: "node_ref \<Rightarrow> 'b node"
  edges :: "edge_ref \<Rightarrow> edge"

text \<open>
  The disassembly is subscripted twice, \<open>disassembly['instructions'][ins_addr]\<close>: a
  dictionary whose entry \<open>'instructions'\<close> is the instruction index, a dictionary from
  addresses to decoded instructions.
\<close>

type_synonym 'i disassembly = "string \<rightharpoonup> (int \<rightharpoonup> 'i)"

subsection \<open>Python operations that can raise\<close>

datatype py_error = IndexError | KeyError | ValueError

text \<open>\<open>xs[i]\<close> on a list, for an index that is not negative.\<close>

definition getitem :: "'a list \<Rightarrow> nat \<Rightarrow> py_error + 'a" where
  "getitem xs i = (if i < length xs then Inr (xs ! i) else Inl IndexError)"

text \<open>\<open>a, b = xs\<close>: unpacking into two names raises ValueError unless \<open>xs\<close> has two items.\<close>

fun unpack2 :: "'a list \<Rightarrow> py_error + ('a \<times> 'a)" where
  "unpack2 [a, b] = Inr (a, b)"
| "unpack2 xs = Inl ValueError"

text \<open>\<open>d[k]\<close> on a dictionary.\<close>

definition subscript :: "('k \<rightharpoonup> 'v) \<Rightarrow> 'k \<Rightarrow> py_error + 'v" where
  "subscript d k = (case d k of None \<Rightarrow> Inl KeyError | Some v \<Rightarrow> Inr v)"

subsection \<open>The diagnostic helper\<close>

text \<open>
  The module's logger is global state; the helper's records are returned with its result.
  A record is the level and what the message is about.
\<close>

datatype 'b log_record =
  Warning_more_than_one "'b node"
| Error_no_out_branches "'b node"
| Error_not_found int

text \<open>
  \<open>_get_branch_instr(disassembly, node)\<close>. The \<open>try\<close> block holds both subscripts, and
  \<open>except KeyError\<close> catches a KeyError of either; any other error would propagate.
  The result \<open>None\<close> of Python is \<open>None\<close>, an instruction \<open>i\<close> is \<open>Some i\<close>.
\<close>

definition get_branch_instr ::
  "'i disassembly \<Rightarrow> 'b node \<Rightarrow> py_error + ('b log_record list \<times> 'i option)" where
  "get_branch_instr disassembly node =
     (let log1 = (if length (out_branches node) > 1 then [Warning_more_than_one node] else [])
      in if out_branches node = [] then Inr (log1 @ [Error_no_out_branches node], None)
         else
           (case getitem (map fst (out_branches node)) 0 of
              Inl err \<Rightarrow> Inl err
            | Inr ins_addr \<Rightarrow>
                (case (case subscript disassembly ''instructions'' of
                         Inl err \<Rightarrow> Inl err
                       | Inr instructions \<Rightarrow> subscript instructions ins_addr) of
                   Inl KeyError \<Rightarrow> Inr (log1 @ [Error_not_found ins_addr], None)
                 | Inl err \<Rightarrow> Inl err
                 | Inr instr \<Rightarrow> Inr (log1, Some instr))))"

subsection \<open>The classifier\<close>

text \<open>
  \<open>edges_by_node[edge.src].append(edge)\<close> on a \<open>defaultdict(list)\<close>: the dictionary is an
  association list in the order in which the keys were first inserted.
\<close>

fun append_edge ::
  "node_ref \<Rightarrow> edge_ref \<Rightarrow> (node_ref \<times> edge_ref list) list \<Rightarrow> (node_ref \<times> edge_ref list) list" where
  "append_edge k e [] = [(k, [e])]"
| "append_edge k e ((k', items) # g) =
     (if k' = k then (k', items @ [e]) # g else (k', items) # append_edge k e g)"

definition edges_by_node :: "'b heap \<Rightarrow> edge_ref list \<Rightarrow> (node_ref \<times> edge_ref list) list" where
  "edges_by_node h es = foldl (\<lambda>g e. append_edge (src (edges h e)) e g) [] es"

text \<open>\<open>edge.sort = s\<close>.\<close>

definition set_sort :: "edge_ref \<Rightarrow> EdgeSort \<Rightarrow> 'b heap \<Rightarrow> 'b heap" where
  "set_sort e s h = h\<lparr>edges := (edges h)(e := (edges h e)\<lparr>sort_e := s\<rparr>)\<rparr>"

text \<open>\<open>edge.dst.addr\<close> and \<open>edge.src.addr\<close>, read through the store.\<close>

definition dst_addr :: "'b heap \<Rightarrow> edge_ref \<Rightarrow> int" where
  "dst_addr h e = addr (nodes h (dst (edges h e)))"

definition src_addr :: "'b heap \<Rightarrow> edge_ref \<Rightarrow> int" where
  "src_addr h e = addr (nodes h (src (edges h e)))"

text \<open>The body of the loop over \<open>edges_by_node.iteritems()\<close>, for one item.\<close>

definition classify_group :: "node_ref \<times> edge_ref list \<Rightarrow> 'b heap \<Rightarrow> py_error + 'b heap" where
  "classify_group g h =
     (case g of (src_node, items) \<Rightarrow>
        if length items = 1 then
          (case getitem items 0 of
             Inl err \<Rightarrow> Inl err
           | Inr edge \<Rightarrow>
               if src_addr h edge \<ge> dst_addr h edge then Inr (set_sort edge BACK_EDGE h)
               else Inr h)
        else if length items = 2 then
          (let fallthrough = addr (nodes h src_node) + size_n (nodes h src_node)
           in case unpack2 items of
                Inl err \<Rightarrow> Inl err
              | Inr (edge_a, edge_b) \<Rightarrow>
                  if dst_addr h edge_a = fallthrough \<and> dst_addr h edge_b \<noteq> fallthrough then
                    Inr (set_sort edge_b TRUE_BRANCH (set_sort edge_a FALSE_BRANCH h))
                  else if dst_addr h edge_a \<noteq> fallthrough \<and> dst_addr h edge_b = fallthrough then
                    Inr (set_sort edge_b FALSE_BRANCH (set_sort edge_a TRUE_BRANCH h))
                  else Inr h)
        else Inr h)"

text \<open>The loop: the groups one after the other, each on the store the last one left.\<close>

fun classify_groups :: "(node_ref \<times> edge_ref list) list \<Rightarrow> 'b heap \<Rightarrow> py_error + 'b heap" where
  "classify_groups [] h = Inr h"
| "classify_groups (g # gs) h =
     (case classify_group g h of Inl err \<Rightarrow> Inl err | Inr h' \<Rightarrow> classify_groups gs h')"

text \<open>
  \<open>categorize_edges(disassembly, edges)\<close>. It returns \<open>None\<close>; the model returns the store
  it leaves, or the error it raised. The call of the helper is commented out in the
  source, so \<open>disassembly\<close> is not read. Python 2 iterates a dictionary in an order of
  its own; here the groups are taken in insertion order, and
  \<open>classify_groups_any_order\<close> below shows that every other order gives the same store.
\<close>

definition categorize_edges :: "'i disassembly \<Rightarrow> edge_ref list \<Rightarrow> 'b heap \<Rightarrow> py_error + 'b heap" where
  "categorize_edges disassembly es h = classify_groups (edges_by_node h es) h"

subsection \<open>Notions the properties are stated with\<close>

text \<open>The outgoing edges of node \<open>n\<close> in the input, in input order.\<close>

definition out_edges :: "'b heap \<Rightarrow> node_ref \<Rightarrow> edge_ref list \<Rightarrow> edge_ref list" where
  "out_edges h n es = filter (\<lambda>e. src (edges h e) = n) es"

text \<open>\<open>fallthrough = N.addr + N.size\<close>.\<close>

definition fallthrough_of :: "'b heap \<Rightarrow> node_ref \<Rightarrow> int" where
  "fallthrough_of h n = addr (nodes h n) + size_n (nodes h n)"

text \<open>The sort of edge \<open>e\<close> in a store.\<close>

definition sort_of :: "'b heap \<Rightarrow> edge_ref \<Rightarrow> EdgeSort" where
  "sort_of h e = sort_e (edges h e)"

text \<open>The instruction index of a disassembly: what is found at an address, if anything.\<close>

definition instr_at :: "'i disassembly \<Rightarrow> int \<Rightarrow> 'i option" where
  "instr_at d a = (case d ''instructions'' of None \<Rightarrow> None | Some m \<Rightarrow> m a)"

subsection \<open>Auxiliary definitions for the proofs\<close>

text \<open>
  What the loop body assigns to edge \<open>e\<close> when it runs on the group \<open>(n, items)\<close>, if
  anything, as a function of the attributes the body reads. \<open>classify_group_verdict\<close>
  shows that the loop body does exactly this.
\<close>

fun verdict :: "'b heap \<Rightarrow> node_ref \<times> edge_ref list \<Rightarrow> edge_ref \<Rightarrow> EdgeSort option" where
  "verdict h (n, [x]) e =
     (if e = x \<and> dst_addr h x \<le> src_addr h x then Some BACK_EDGE else None)"
| "verdict h (n, [a, b]) e =
     (if dst_addr h a = fallthrough_of h n \<and> dst_addr h b \<noteq> fallthrough_of h n then
        (if e = b then Some TRUE_BRANCH else if e = a then Some FALSE_BRANCH else None)
      else if dst_addr h a \<noteq> fallthrough_of h n \<and> dst_addr h b = fallthrough_of h n then
        (if e = b then Some FALSE_BRANCH else if e = a then Some TRUE_BRANCH else None)
      else None)"
| "verdict h g e = None"

text \<open>The store with the sorts of a set of edges overwritten.\<close>

definition with_verdicts :: "(edge_ref \<Rightarrow> EdgeSort option) \<Rightarrow> 'b heap \<Rightarrow> 'b heap" where
  "with_verdicts v h =
     h\<lparr>edges := (\<lambda>e. case v e of None \<Rightarrow> edges h e | Some s \<Rightarrow> (edges h e)\<lparr>sort_e := s\<rparr>)\<rparr>"

text \<open>The last assignment to \<open>e\<close> in a run over a list of groups.\<close>

fun verdicts :: "'b heap \<Rightarrow> (node_ref \<times> edge_ref list) list \<Rightarrow> edge_ref \<Rightarrow> EdgeSort option" where
  "verdicts h [] e = None"
| "verdicts h (g # gs) e = (case verdicts h gs e of Some s \<Rightarrow> Some s | None \<Rightarrow> verdict h g e)"

text \<open>
  The dictionary that the first loop builds from the input \<open>es\<close>: one entry for each
  source node that occurs, holding the outgoing edges of that node in input order.
\<close>

definition grouped :: "'b heap \<Rightarrow> edge_ref list \<Rightarrow> (node_ref \<times> edge_ref list) list \<Rightarrow> bool" where
  "grouped h es g \<longleftrightarrow>
     distinct (map fst g) \<and>
     (\<forall>k. map_of g k = (if out_edges h k es = [] then None else Some (out_edges h k es)))"

text \<open>What the whole pass assigns to edge \<open>e\<close>, if anything.\<close>

definition final_verdict :: "'b heap \<Rightarrow> edge_ref list \<Rightarrow> edge_ref \<Rightarrow> EdgeSort option" where
  "final_verdict h es e = verdict h (src (edges h e), out_edges h (src (edges h e)) es) e"

subsection \<open>Example scenarios\<close>

text \<open>
  The nodes of the spec's example scenarios: A at node reference 10 (\<open>0x1000\<close>, 4 bytes,
  so that its fallthrough address is \<open>0x1004\<close>), B at 11 (\<open>0x1004\<close>), C at 12
  (\<open>0x2000\<close>), D at 13 (\<open>0x1008\<close>) and L at 14 (\<open>0x0800\<close>, below A). The edges:
  20 is A to B, 21 is A to C, 22 is A to D, 23 is A to L, 24 is A to A and 25 is C to A.
\<close>

definition scenario_heap :: "unit heap" where
  "scenario_heap =
     \<lparr>nodes = (\<lambda>_. \<lparr>addr = 0, size_n = 0, out_branches = []\<rparr>)
        (10 := \<lparr>addr = 0x1000, size_n = 4, out_branches = []\<rparr>,
         11 := \<lparr>addr = 0x1004, size_n = 4, out_branches = []\<rparr>,
         12 := \<lparr>addr = 0x2000, size_n = 4, out_branches = []\<rparr>,
         13 := \<lparr>addr = 0x1008, size_n = 4, out_branches = []\<rparr>,
         14 := \<lparr>addr = 0x0800, size_n = 4, out_branches = []\<rparr>),
      edges = (\<lambda>_. \<lparr>src = 15, dst = 15, sort_e = UNCLASSIFIED\<rparr>)
        (20 := \<lparr>src = 10, dst = 11, sort_e = UNCLASSIFIED\<rparr>,
         21 := \<lparr>src = 10, dst = 12, sort_e = UNCLASSIFIED\<rparr>,
         22 := \<lparr>src = 10, dst = 13, sort_e = UNCLASSIFIED\<rparr>,
         23 := \<lparr>src = 10, dst = 14, sort_e = UNCLASSIFIED\<rparr>,
         24 := \<lparr>src = 10, dst = 10, sort_e = UNCLASSIFIED\<rparr>,
         25 := \<lparr>src = 12, dst = 10, sort_e = UNCLASSIFIED\<rparr>)\<rparr>"

text \<open>A node with two recorded out-branches, and a disassembly that knows the first.\<close>

definition scenario_node :: "unit node" where
  "scenario_node = \<lparr>addr = 0x1000, size_n = 4, out_branches = [(0x1002, ()), (0x1003, ())]\<rparr>"

definition scenario_disassembly :: "nat disassembly" where
  "scenario_disassembly = [''instructions'' \<mapsto> [0x1002 \<mapsto> 7]]"

section \<open>Proofs\<close>

subsection \<open>The loop body and the loop, as assignments of sorts\<close>

lemma with_verdicts_comp:
  "with_verdicts v2 (with_verdicts v1 h) =
   with_verdicts (\<lambda>e. case v2 e of Some s \<Rightarrow> Some s | None \<Rightarrow> v1 e) h"
  by (simp add: with_verdicts_def fun_eq_iff split: option.splits)

lemma dst_addr_with [simp]: "dst_addr (with_verdicts v h) e = dst_addr h e"
  by (simp add: dst_addr_def with_verdicts_def split: option.splits)

lemma src_addr_with [simp]: "src_addr (with_verdicts v h) e = src_addr h e"
  by (simp add: src_addr_def with_verdicts_def split: option.splits)

lemma fallthrough_of_with [simp]: "fallthrough_of (with_verdicts v h) n = fallthrough_of h n"
  by (simp add: fallthrough_of_def with_verdicts_def)

lemma verdict_with [simp]: "verdict (with_verdicts v h) g e = verdict h g e"
  by (induction h g e rule: verdict.induct) simp_all

lemma verdicts_with [simp]: "verdicts (with_verdicts v h) gs e = verdicts h gs e"
  by (induction gs) (simp_all split: option.splits)

lemma classify_group_verdict: "classify_group g h = Inr (with_verdicts (verdict h g) h)"
proof (cases g)
  case (Pair n items)
  show ?thesis
  proof (cases items)
    case Nil
    with Pair show ?thesis
      by (simp add: classify_group_def with_verdicts_def)
  next
    case (Cons a as)
    note c1 = this
    show ?thesis
    proof (cases as)
      case Nil
      with c1 Pair show ?thesis
        by (simp add: classify_group_def getitem_def set_sort_def with_verdicts_def fun_eq_iff)
    next
      case (Cons b bs)
      note c2 = this
      show ?thesis
      proof (cases bs)
        case Nil
        with c1 c2 Pair show ?thesis
          by (auto simp add: classify_group_def set_sort_def with_verdicts_def fun_eq_iff
              fallthrough_of_def Let_def)
      next
        case (Cons c cs)
        with c1 c2 Pair show ?thesis
          by (simp add: classify_group_def with_verdicts_def)
      qed
    qed
  qed
qed

lemma classify_groups_verdicts: "classify_groups gs h = Inr (with_verdicts (verdicts h gs) h)"
proof (induction gs arbitrary: h)
  case Nil
  show ?case by (simp add: with_verdicts_def)
next
  case (Cons g gs)
  show ?case
    by (simp add: classify_group_verdict Cons.IH with_verdicts_comp)
qed

subsection \<open>The dictionary of groups\<close>

lemma append_edge_keys:
  "map fst (append_edge k e g) = (if k \<in> set (map fst g) then map fst g else map fst g @ [k])"
  by (induction g) (force split: if_splits)+

lemma map_of_append_edge:
  "map_of (append_edge k e g) k' =
     (if k' = k then Some ((case map_of g k of None \<Rightarrow> [] | Some xs \<Rightarrow> xs) @ [e])
      else map_of g k')"
  by (induction g) auto

lemma grouped_Nil: "grouped h [] []"
  by (simp add: grouped_def out_edges_def)

lemma grouped_snoc:
  assumes "grouped h es g"
  shows "grouped h (es @ [e]) (append_edge (src (edges h e)) e g)"
proof -
  from assms have d: "distinct (map fst g)"
    and m: "\<And>k. map_of g k = (if out_edges h k es = [] then None else Some (out_edges h k es))"
    by (simp_all add: grouped_def)
  have "distinct (map fst (append_edge (src (edges h e)) e g))"
    using d by (simp add: append_edge_keys)
  moreover have "map_of (append_edge (src (edges h e)) e g) k =
      (if out_edges h k (es @ [e]) = [] then None else Some (out_edges h k (es @ [e])))" for k
    by (simp add: map_of_append_edge m out_edges_def)
  ultimately show ?thesis
    by (simp add: grouped_def)
qed

lemma edges_by_node_grouped: "grouped h es (edges_by_node h es)"
proof (induction es rule: rev_induct)
  case Nil
  show ?case by (simp add: edges_by_node_def grouped_Nil)
next
  case (snoc e es)
  then show ?case
    using grouped_snoc [of h es "edges_by_node h es" e] by (simp add: edges_by_node_def)
qed

lemma grouped_mset:
  assumes "grouped h es g" and "mset g' = mset g"
  shows "grouped h es g'"
proof -
  from assms(1) have d: "distinct (map fst g)"
    by (simp add: grouped_def)
  have "mset (map fst g') = mset (map fst g)"
    using assms(2) by simp
  then have d': "distinct (map fst g')"
    using d by (metis mset_eq_imp_distinct_iff)
  have "set g' = set g"
    using assms(2) by (rule mset_eq_setD)
  then have "map_of g' = map_of g"
    using d d' by (simp add: map_of_inject_set)
  with assms(1) d' show ?thesis
    by (simp add: grouped_def)
qed

subsection \<open>The pass as one assignment of sorts\<close>

lemma verdict_Some_mem: "verdict h (k, items) e = Some s \<Longrightarrow> e \<in> set items"
  by (induction h "(k, items)" e rule: verdict.induct) (auto split: if_splits)

lemma verdicts_map_of:
  assumes "distinct (map fst gs)"
    and "\<And>k items x. (k, items) \<in> set gs \<Longrightarrow> x \<in> set items \<Longrightarrow> src (edges h x) = k"
  shows "verdicts h gs e =
     (case map_of gs (src (edges h e)) of None \<Rightarrow> None
      | Some items \<Rightarrow> verdict h (src (edges h e), items) e)"
  using assms
proof (induction gs)
  case Nil
  show ?case by simp
next
  case (Cons g gs)
  obtain k items where g: "g = (k, items)"
    by (cases g)
  have d: "distinct (map fst gs)" and nk: "k \<notin> fst ` set gs"
    using Cons.prems(1) g by simp_all
  have IH: "verdicts h gs e =
     (case map_of gs (src (edges h e)) of None \<Rightarrow> None
      | Some items \<Rightarrow> verdict h (src (edges h e), items) e)"
  proof (rule Cons.IH [OF d])
    fix k' items' x
    assume "(k', items') \<in> set gs" and "x \<in> set items'"
    then show "src (edges h x) = k'"
      using Cons.prems(2) [of k' items' x] by simp
  qed
  show ?case
  proof (cases "k = src (edges h e)")
    case True
    then have "map_of gs (src (edges h e)) = None"
      using nk by (simp add: map_of_eq_None_iff)
    then have "verdicts h gs e = None"
      using IH by simp
    then show ?thesis
      using True g by simp
  next
    case False
    have "e \<notin> set items"
      using Cons.prems(2) [of k items e] False g by auto
    then have "verdict h (k, items) e = None"
      using verdict_Some_mem [of h k items e] by (cases "verdict h (k, items) e") auto
    then show ?thesis
      using False g IH by (simp split: option.splits)
  qed
qed

lemma grouped_verdicts:
  assumes "grouped h es gs"
  shows "verdicts h gs e = final_verdict h es e"
proof -
  from assms have d: "distinct (map fst gs)"
    and m: "\<And>k. map_of gs k = (if out_edges h k es = [] then None else Some (out_edges h k es))"
    by (simp_all add: grouped_def)
  have mem: "src (edges h x) = k" if "(k, items) \<in> set gs" and "x \<in> set items" for k items x
  proof -
    from that(1) d have "map_of gs k = Some items"
      by simp
    then have "items = out_edges h k es"
      using m [of k] by (simp split: if_splits)
    with that(2) show ?thesis
      by (simp add: out_edges_def)
  qed
  show ?thesis
    using verdicts_map_of [of gs h e, OF d mem] m [of "src (edges h e)"]
    by (simp add: final_verdict_def split: if_splits)
qed

lemma classify_groups_any_order:
  assumes "mset gs = mset (edges_by_node h es)"
  shows "classify_groups gs h = Inr (with_verdicts (final_verdict h es) h)"
proof -
  have "grouped h es gs"
    using edges_by_node_grouped assms by (rule grouped_mset)
  then have "verdicts h gs = final_verdict h es"
    by (simp add: fun_eq_iff grouped_verdicts)
  then show ?thesis
    by (simp add: classify_groups_verdicts)
qed

lemma categorize_edges_char:
  "categorize_edges d es h = Inr (with_verdicts (final_verdict h es) h)"
  by (simp add: categorize_edges_def classify_groups_any_order)

lemma nodes_with [simp]: "nodes (with_verdicts v h) = nodes h"
  by (simp add: with_verdicts_def)

lemma src_with [simp]: "src (edges (with_verdicts v h) e) = src (edges h e)"
  by (simp add: with_verdicts_def split: option.splits)

lemma dst_with [simp]: "dst (edges (with_verdicts v h) e) = dst (edges h e)"
  by (simp add: with_verdicts_def split: option.splits)

lemma sort_of_with:
  "sort_of (with_verdicts v h) e = (case v e of None \<Rightarrow> sort_of h e | Some s \<Rightarrow> s)"
  by (simp add: with_verdicts_def sort_of_def split: option.splits)

lemma out_edges_with [simp]: "out_edges (with_verdicts v h) n es = out_edges h n es"
  by (simp add: out_edges_def)

lemma final_verdict_with [simp]: "final_verdict (with_verdicts v h) es e = final_verdict h es e"
  by (simp add: final_verdict_def)

lemma out_edges_src: "e \<in> set (out_edges h n es) \<Longrightarrow> src (edges h e) = n"
  by (simp add: out_edges_def)

lemma sort_of_categorized:
  "sort_of (with_verdicts (final_verdict h es) h) e =
     (case verdict h (src (edges h e), out_edges h (src (edges h e)) es) e of
        None \<Rightarrow> sort_of h e | Some s \<Rightarrow> s)"
  by (simp add: sort_of_with final_verdict_def)

lemma verdict_other_sizes:
  "length items \<noteq> 1 \<Longrightarrow> length items \<noteq> 2 \<Longrightarrow> verdict h (n, items) e = None"
  by (cases "(h, (n, items), e)" rule: verdict.cases) auto

subsection \<open>The example scenarios, evaluated\<close>

lemma scenario_dst_addr:
  "dst_addr scenario_heap 20 = 0x1004" "dst_addr scenario_heap 21 = 0x2000"
  "dst_addr scenario_heap 22 = 0x1008" "dst_addr scenario_heap 23 = 0x0800"
  "dst_addr scenario_heap 24 = 0x1000" "dst_addr scenario_heap 25 = 0x1000"
  by (simp_all add: dst_addr_def scenario_heap_def)

lemma scenario_src_addr:
  "src_addr scenario_heap 20 = 0x1000" "src_addr scenario_heap 21 = 0x1000"
  "src_addr scenario_heap 22 = 0x1000" "src_addr scenario_heap 23 = 0x1000"
  "src_addr scenario_heap 24 = 0x1000" "src_addr scenario_heap 25 = 0x2000"
  by (simp_all add: src_addr_def scenario_heap_def)

lemma scenario_src:
  "src (edges scenario_heap 20) = 10" "src (edges scenario_heap 21) = 10"
  "src (edges scenario_heap 22) = 10" "src (edges scenario_heap 23) = 10"
  "src (edges scenario_heap 24) = 10" "src (edges scenario_heap 25) = 12"
  by (simp_all add: scenario_heap_def)

lemma scenario_sort:
  "sort_of scenario_heap 20 = UNCLASSIFIED" "sort_of scenario_heap 21 = UNCLASSIFIED"
  "sort_of scenario_heap 22 = UNCLASSIFIED" "sort_of scenario_heap 23 = UNCLASSIFIED"
  "sort_of scenario_heap 24 = UNCLASSIFIED" "sort_of scenario_heap 25 = UNCLASSIFIED"
  by (simp_all add: sort_of_def scenario_heap_def)

lemma scenario_fallthrough:
  "fallthrough_of scenario_heap 10 = 0x1004" "fallthrough_of scenario_heap 12 = 0x2004"
  by (simp_all add: fallthrough_of_def scenario_heap_def)

lemmas scenario_simps =
  scenario_dst_addr scenario_src_addr scenario_src scenario_sort scenario_fallthrough

lemma verdict_mset:
  assumes "mset xs = mset ys"
  shows "verdict h (n, xs) e = verdict h (n, ys) e"
proof -
  have len: "length xs = length ys"
    using assms by (rule mset_eq_length)
  consider (one) x where "xs = [x]" | (two) a b where "xs = [a, b]"
    | (other) "length xs \<noteq> 1" "length xs \<noteq> 2"
    by (cases "(h, (n, xs), e)" rule: verdict.cases) auto
  then show ?thesis
  proof cases
    case one
    then have "ys = [x]"
      using assms by simp
    with one show ?thesis by simp
  next
    case two
    then have "ys = [a, b] \<or> ys = [b, a]"
    proof -
      from two len obtain c d where ys: "ys = [c, d]"
        by (cases ys; cases "tl ys") auto
      with two assms have "{#a, b#} = {#c, d#}"
        by simp
      then have "a = c \<and> b = d \<or> a = d \<and> b = c"
        by (auto simp add: add_eq_conv_ex)
      with ys show ?thesis
        by auto
    qed
    with two show ?thesis by auto
  next
    case other
    then show ?thesis
      using len by (simp add: verdict_other_sizes)
  qed
qed

lemma final_verdict_mset:
  assumes "mset es' = mset es"
  shows "final_verdict h es' e = final_verdict h es e"
proof -
  have "mset (out_edges h n es') = mset (out_edges h n es)" for n
    using assms by (simp add: out_edges_def)
  then have "verdict h (n, out_edges h n es') e = verdict h (n, out_edges h n es) e" for n
    by (rule verdict_mset)
  then show ?thesis
    by (simp add: final_verdict_def)
qed

section \<open>The properties\<close>

text \<open>
  Claim C1. Let node \<open>n\<close> have exactly two outgoing edges \<open>a\<close>, \<open>b\<close> in the input, and let
  \<open>fallthrough = n.addr + n.size\<close>. The pass returns, and in the store it leaves: if the
  target address of exactly one of the two edges is \<open>fallthrough\<close>, that edge has sort
  \<open>FALSE_BRANCH\<close> and the other \<open>TRUE_BRANCH\<close>; if the target addresses of none or of both
  are \<open>fallthrough\<close>, both edges have the sort they had before.
\<close>

theorem categorize_edges_two_successors:
  assumes "out_edges h n es = [a, b]"
  shows "\<exists>h'. categorize_edges d es h = Inr h' \<and>
     (dst_addr h a = fallthrough_of h n \<and> dst_addr h b \<noteq> fallthrough_of h n \<longrightarrow>
        sort_of h' a = FALSE_BRANCH \<and> sort_of h' b = TRUE_BRANCH) \<and>
     (dst_addr h a \<noteq> fallthrough_of h n \<and> dst_addr h b = fallthrough_of h n \<longrightarrow>
        sort_of h' a = TRUE_BRANCH \<and> sort_of h' b = FALSE_BRANCH) \<and>
     ((dst_addr h a = fallthrough_of h n \<longleftrightarrow> dst_addr h b = fallthrough_of h n) \<longrightarrow>
        sort_of h' a = sort_of h a \<and> sort_of h' b = sort_of h b)"
proof -
  have "a \<in> set (out_edges h n es)" and "b \<in> set (out_edges h n es)"
    using assms by simp_all
  then have "src (edges h a) = n" and "src (edges h b) = n"
    by (simp_all add: out_edges_src)
  then show ?thesis
    using assms by (auto simp add: categorize_edges_char sort_of_categorized)
qed

text \<open>
  Scenario 3 in both input orders (A to B falls through, A to C is taken), and
  scenario 4 (neither A to D nor A to C goes to \<open>0x1004\<close>).
\<close>

theorem categorize_edges_two_successors_witness:
  "out_edges scenario_heap 10 [20, 21] = [20, 21] \<and>
   (\<exists>h'. categorize_edges (Map.empty :: nat disassembly) [20, 21] scenario_heap = Inr h' \<and>
      sort_of h' 20 = FALSE_BRANCH \<and> sort_of h' 21 = TRUE_BRANCH) \<and>
   out_edges scenario_heap 10 [21, 20] = [21, 20] \<and>
   (\<exists>h'. categorize_edges (Map.empty :: nat disassembly) [21, 20] scenario_heap = Inr h' \<and>
      sort_of h' 21 = TRUE_BRANCH \<and> sort_of h' 20 = FALSE_BRANCH) \<and>
   out_edges scenario_heap 10 [22, 21] = [22, 21] \<and>
   (\<exists>h'. categorize_edges (Map.empty :: nat disassembly) [22, 21] scenario_heap = Inr h' \<and>
      sort_of h' 22 = UNCLASSIFIED \<and> sort_of h' 21 = UNCLASSIFIED)"
proof -
  have o1: "out_edges scenario_heap 10 [20, 21] = [20, 21]"
    and o2: "out_edges scenario_heap 10 [21, 20] = [21, 20]"
    and o3: "out_edges scenario_heap 10 [22, 21] = [22, 21]"
    by (simp_all add: out_edges_def scenario_src)
  show ?thesis
    using o1 o2 o3
      categorize_edges_two_successors [OF o1, of "Map.empty :: nat disassembly"]
      categorize_edges_two_successors [OF o2, of "Map.empty :: nat disassembly"]
      categorize_edges_two_successors [OF o3, of "Map.empty :: nat disassembly"]
    by (simp add: scenario_simps)
qed

text \<open>
  Claim C2. Let node \<open>n\<close> have exactly one outgoing edge \<open>e\<close> in the input. The pass
  returns; if \<open>e.dst.addr \<le> e.src.addr\<close> (a self-loop included) it leaves \<open>e\<close> with sort
  \<open>BACK_EDGE\<close>, otherwise with the sort \<open>e\<close> had before. So an edge that was not a
  \<open>BACK_EDGE\<close> before is one afterwards if and only if \<open>e.dst.addr \<le> e.src.addr\<close>.
\<close>

theorem categorize_edges_single_successor:
  assumes "out_edges h n es = [e]"
  shows "\<exists>h'. categorize_edges d es h = Inr h' \<and>
     (dst_addr h e \<le> src_addr h e \<longrightarrow> sort_of h' e = BACK_EDGE) \<and>
     (\<not> dst_addr h e \<le> src_addr h e \<longrightarrow> sort_of h' e = sort_of h e) \<and>
     (sort_of h e \<noteq> BACK_EDGE \<longrightarrow>
        (sort_of h' e = BACK_EDGE \<longleftrightarrow> dst_addr h e \<le> src_addr h e))"
proof -
  have "e \<in> set (out_edges h n es)"
    using assms by simp
  then have "src (edges h e) = n"
    by (simp add: out_edges_src)
  then show ?thesis
    using assms by (auto simp add: categorize_edges_char sort_of_categorized)
qed

text \<open>
  Scenario 2 (C to A goes back), the self-loop A to A, and scenario 1 (A to C goes
  forward).
\<close>

theorem categorize_edges_single_successor_witness:
  "out_edges scenario_heap 12 [25] = [25] \<and>
   (\<exists>h'. categorize_edges (Map.empty :: nat disassembly) [25] scenario_heap = Inr h' \<and>
      sort_of h' 25 = BACK_EDGE) \<and>
   out_edges scenario_heap 10 [24] = [24] \<and>
   (\<exists>h'. categorize_edges (Map.empty :: nat disassembly) [24] scenario_heap = Inr h' \<and>
      sort_of h' 24 = BACK_EDGE) \<and>
   out_edges scenario_heap 10 [21] = [21] \<and>
   (\<exists>h'. categorize_edges (Map.empty :: nat disassembly) [21] scenario_heap = Inr h' \<and>
      sort_of h' 21 = UNCLASSIFIED)"
proof -
  have o1: "out_edges scenario_heap 12 [25] = [25]"
    and o2: "out_edges scenario_heap 10 [24] = [24]"
    and o3: "out_edges scenario_heap 10 [21] = [21]"
    by (simp_all add: out_edges_def scenario_src)
  show ?thesis
    using o1 o2 o3
      categorize_edges_single_successor [OF o1, of "Map.empty :: nat disassembly"]
      categorize_edges_single_successor [OF o2, of "Map.empty :: nat disassembly"]
      categorize_edges_single_successor [OF o3, of "Map.empty :: nat disassembly"]
    by (auto simp add: scenario_simps)
qed

text \<open>
  Claim C3. Let node \<open>n\<close> have no outgoing edge in the input, or three or more. The
  pass returns and every edge with source \<open>n\<close> has the sort it had before.
\<close>

theorem categorize_edges_other_sizes:
  assumes "length (out_edges h n es) = 0 \<or> length (out_edges h n es) \<ge> 3"
  shows "\<exists>h'. categorize_edges d es h = Inr h' \<and>
     (\<forall>e. src (edges h e) = n \<longrightarrow> sort_of h' e = sort_of h e)"
proof -
  have "verdict h (n, out_edges h n es) e = None" for e
    using assms by (intro verdict_other_sizes) auto
  then show ?thesis
    by (auto simp add: categorize_edges_char sort_of_categorized)
qed

text \<open>
  Scenario 5: three edges leave A. And no edge of the input leaves node 15, the source
  of edge 30, which is not in the input.
\<close>

theorem categorize_edges_other_sizes_witness:
  "length (out_edges scenario_heap 10 [20, 21, 22]) \<ge> 3 \<and>
   (\<exists>h'. categorize_edges (Map.empty :: nat disassembly) [20, 21, 22] scenario_heap = Inr h' \<and>
      sort_of h' 20 = UNCLASSIFIED \<and> sort_of h' 21 = UNCLASSIFIED \<and>
      sort_of h' 22 = UNCLASSIFIED) \<and>
   length (out_edges scenario_heap 15 [20, 21, 22]) = 0 \<and>
   (\<exists>h'. categorize_edges (Map.empty :: nat disassembly) [20, 21, 22] scenario_heap = Inr h' \<and>
      sort_of h' 30 = UNCLASSIFIED)"
proof -
  have o1: "out_edges scenario_heap 10 [20, 21, 22] = [20, 21, 22]"
    and o2: "out_edges scenario_heap 15 [20, 21, 22] = []"
    by (simp_all add: out_edges_def scenario_src)
  have e30: "src (edges scenario_heap 30) = 15" "sort_of scenario_heap 30 = UNCLASSIFIED"
    by (simp_all add: scenario_heap_def sort_of_def)
  have "length (out_edges scenario_heap 10 [20, 21, 22]) = 0 \<or>
      length (out_edges scenario_heap 10 [20, 21, 22]) \<ge> 3"
    by (simp add: o1)
  from categorize_edges_other_sizes [OF this, of "Map.empty :: nat disassembly"]
  obtain h1 where
    r1: "categorize_edges (Map.empty :: nat disassembly) [20, 21, 22] scenario_heap = Inr h1"
    and u1: "\<forall>e. src (edges scenario_heap e) = 10 \<longrightarrow> sort_of h1 e = sort_of scenario_heap e"
    by blast
  have "length (out_edges scenario_heap 15 [20, 21, 22]) = 0 \<or>
      length (out_edges scenario_heap 15 [20, 21, 22]) \<ge> 3"
    by (simp add: o2)
  from categorize_edges_other_sizes [OF this, of "Map.empty :: nat disassembly"]
  obtain h2 where
    r2: "categorize_edges (Map.empty :: nat disassembly) [20, 21, 22] scenario_heap = Inr h2"
    and u2: "\<forall>e. src (edges scenario_heap e) = 15 \<longrightarrow> sort_of h2 e = sort_of scenario_heap e"
    by blast
  from r1 u1 r2 u2 show ?thesis
    by (simp add: o1 o2 e30 scenario_simps)
qed

text \<open>
  Claim C4. For every disassembly, every input list and every store, the pass returns a
  store and raises no error. Where a node has two outgoing edges in the input and the
  target addresses of none or of both are its fallthrough address, both edges keep the
  sort they had. The classifier does not call the logger, so its model has no log.
\<close>

theorem categorize_edges_never_raises:
  "\<exists>h'. categorize_edges d es h = Inr h' \<and>
     (\<forall>n a b. out_edges h n es = [a, b] \<and>
        (dst_addr h a = fallthrough_of h n \<longleftrightarrow> dst_addr h b = fallthrough_of h n) \<longrightarrow>
        sort_of h' a = sort_of h a \<and> sort_of h' b = sort_of h b)"
proof -
  have "sort_of (with_verdicts (final_verdict h es) h) a = sort_of h a \<and>
        sort_of (with_verdicts (final_verdict h es) h) b = sort_of h b"
    if o: "out_edges h n es = [a, b]"
      and f: "dst_addr h a = fallthrough_of h n \<longleftrightarrow> dst_addr h b = fallthrough_of h n"
    for n a b
  proof -
    have "a \<in> set (out_edges h n es)" and "b \<in> set (out_edges h n es)"
      using o by simp_all
    then have "src (edges h a) = n" and "src (edges h b) = n"
      by (simp_all add: out_edges_src)
    then show ?thesis
      using o f by (auto simp add: sort_of_categorized)
  qed
  then show ?thesis
    unfolding categorize_edges_char by blast
qed

text \<open>Scenario 4 again: two successors, none at the fallthrough address.\<close>

theorem categorize_edges_never_raises_witness:
  "out_edges scenario_heap 10 [22, 21] = [22, 21] \<and>
   (dst_addr scenario_heap 22 = fallthrough_of scenario_heap 10 \<longleftrightarrow>
    dst_addr scenario_heap 21 = fallthrough_of scenario_heap 10) \<and>
   (\<exists>h'. categorize_edges (Map.empty :: nat disassembly) [22, 21] scenario_heap = Inr h' \<and>
      sort_of h' 22 = UNCLASSIFIED \<and> sort_of h' 21 = UNCLASSIFIED)"
proof -
  have o: "out_edges scenario_heap 10 [22, 21] = [22, 21]"
    by (simp add: out_edges_def scenario_src)
  from categorize_edges_never_raises [of "Map.empty :: nat disassembly" "[22, 21]" scenario_heap]
  obtain h' where r: "categorize_edges (Map.empty :: nat disassembly) [22, 21] scenario_heap = Inr h'"
    and u: "\<forall>n a b. out_edges scenario_heap n [22, 21] = [a, b] \<and>
        (dst_addr scenario_heap a = fallthrough_of scenario_heap n \<longleftrightarrow>
         dst_addr scenario_heap b = fallthrough_of scenario_heap n) \<longrightarrow>
        sort_of h' a = sort_of scenario_heap a \<and> sort_of h' b = sort_of scenario_heap b"
    by blast
  have "sort_of h' 22 = sort_of scenario_heap 22 \<and> sort_of h' 21 = sort_of scenario_heap 21"
    using u [rule_format, of 10 22 21] o by (simp add: scenario_simps)
  with r o show ?thesis
    by (simp add: scenario_simps)
qed

text \<open>
  Claim C5. Idempotence: the pass returns a store \<open>h'\<close>, and a second run on the same
  input list, started in \<open>h'\<close>, returns \<open>h'\<close> again: every edge has the same sort after
  two runs as after one.
\<close>

theorem categorize_edges_idempotent:
  "\<exists>h'. categorize_edges d es h = Inr h' \<and> categorize_edges d' es h' = Inr h'"
proof -
  let ?v = "final_verdict h es"
  have "with_verdicts (final_verdict (with_verdicts ?v h) es) (with_verdicts ?v h) =
        with_verdicts ?v h"
  proof -
    have "final_verdict (with_verdicts ?v h) es = ?v"
      by (simp add: fun_eq_iff)
    moreover have "(\<lambda>e. case ?v e of Some s \<Rightarrow> Some s | None \<Rightarrow> ?v e) = ?v"
      by (simp add: fun_eq_iff split: option.splits)
    ultimately show ?thesis
      by (simp add: with_verdicts_comp)
  qed
  then show ?thesis
    by (simp add: categorize_edges_char)
qed

text \<open>
  Claim C6. Order-independence: if \<open>es'\<close> is a permutation of the input \<open>es\<close>, the pass
  on \<open>es'\<close> leaves the same store as the pass on \<open>es\<close>, and so does the loop over the
  groups of \<open>es'\<close> taken in any order \<open>gs\<close> (the dictionary's iteration order).
\<close>

theorem categorize_edges_order_independent:
  assumes "mset es' = mset es" and "mset gs = mset (edges_by_node h es')"
  shows "\<exists>h'. categorize_edges d es h = Inr h' \<and> categorize_edges d es' h = Inr h' \<and>
     classify_groups gs h = Inr h'"
proof -
  have "final_verdict h es' = final_verdict h es"
  proof (rule ext)
    fix e
    show "final_verdict h es' e = final_verdict h es e"
      using assms(1) by (rule final_verdict_mset)
  qed
  then show ?thesis
    using classify_groups_any_order [OF assms(2)] by (simp add: categorize_edges_char)
qed

text \<open>Three edges of two nodes, the input reversed and the groups in the other order.\<close>

theorem categorize_edges_order_independent_witness:
  "mset [21, 25, 20] = mset [20, 25, 21 :: edge_ref] \<and>
   mset [(12, [25]), (10, [21, 20])] = mset (edges_by_node scenario_heap [21, 25, 20]) \<and>
   (\<exists>h'. categorize_edges (Map.empty :: nat disassembly) [20, 25, 21] scenario_heap = Inr h' \<and>
      categorize_edges (Map.empty :: nat disassembly) [21, 25, 20] scenario_heap = Inr h' \<and>
      classify_groups [(12, [25]), (10, [21, 20])] scenario_heap = Inr h')"
proof -
  have p: "mset [21, 25, 20] = mset [20, 25, 21 :: edge_ref]"
    by simp
  have g: "mset [(12, [25]), (10, [21, 20])] = mset (edges_by_node scenario_heap [21, 25, 20])"
    by (simp add: edges_by_node_def scenario_src)
  show ?thesis
    using p g categorize_edges_order_independent [OF p g, of "Map.empty :: nat disassembly"]
    by simp
qed

text \<open>
  Claim C7. The disassembly does not interfere: for any two disassembly arguments, of
  any instruction types, the pass gives the same result on the same input and store.
\<close>

theorem categorize_edges_ignores_disassembly:
  "categorize_edges d1 es h = categorize_edges d2 es h"
  by (simp add: categorize_edges_def)

text \<open>
  Claim C8. \<open>_get_branch_instr\<close> raises no error. Its result is \<open>None\<close> if and only if the
  node has no out-branch or the instruction index of the disassembly has no entry at the
  address of the first out-branch; with at least one out-branch the result is what the
  index holds at the address of the first one; with more than one, a warning is logged.
\<close>

theorem get_branch_instr_result:
  "\<exists>log r. get_branch_instr d node = Inr (log, r) \<and>
     (r = None \<longleftrightarrow>
        out_branches node = [] \<or>
        (\<exists>a b rest. out_branches node = (a, b) # rest \<and> instr_at d a = None)) \<and>
     (\<forall>a b rest. out_branches node = (a, b) # rest \<longrightarrow> r = instr_at d a) \<and>
     (length (out_branches node) > 1 \<longrightarrow> Warning_more_than_one node \<in> set log)"
proof (cases "out_branches node")
  case Nil
  then show ?thesis
    by (simp add: get_branch_instr_def)
next
  case (Cons p rest)
  obtain a b where p: "p = (a, b)"
    by (cases p)
  show ?thesis
  proof (cases "d ''instructions''")
    case None
    then show ?thesis
      using Cons p by (simp add: get_branch_instr_def getitem_def subscript_def instr_at_def)
  next
    case (Some m)
    then show ?thesis
      using Cons p
      by (cases "m a") (simp_all add: get_branch_instr_def getitem_def subscript_def instr_at_def)
  qed
qed

text \<open>
  Two out-branches, the first at \<open>0x1002\<close>: a disassembly whose index knows the address,
  and an empty disassembly.
\<close>

theorem get_branch_instr_result_witness:
  "length (out_branches scenario_node) > 1 \<and>
   out_branches scenario_node = (0x1002, ()) # [(0x1003, ())] \<and>
   instr_at scenario_disassembly 0x1002 = Some 7 \<and>
   (\<exists>log. get_branch_instr scenario_disassembly scenario_node = Inr (log, Some 7) \<and>
      Warning_more_than_one scenario_node \<in> set log) \<and>
   instr_at (Map.empty :: nat disassembly) 0x1002 = None \<and>
   (\<exists>log. get_branch_instr (Map.empty :: nat disassembly) scenario_node = Inr (log, None))"
proof -
  have o: "out_branches scenario_node = (0x1002, ()) # [(0x1003, ())]"
    by (simp add: scenario_node_def)
  have i: "instr_at scenario_disassembly 0x1002 = Some 7"
    by (simp add: instr_at_def scenario_disassembly_def)
  have j: "instr_at (Map.empty :: nat disassembly) 0x1002 = None"
    by (simp add: instr_at_def)
  from get_branch_instr_result [of scenario_disassembly scenario_node]
  obtain log r where res: "get_branch_instr scenario_disassembly scenario_node = Inr (log, r)"
    and first: "\<forall>a b rest. out_branches scenario_node = (a, b) # rest \<longrightarrow>
        r = instr_at scenario_disassembly a"
    and warn: "length (out_branches scenario_node) > 1 \<longrightarrow>
        Warning_more_than_one scenario_node \<in> set log"
    by blast
  have r: "r = Some 7"
    using first [rule_format, OF o] i by simp
  from get_branch_instr_result [of "Map.empty :: nat disassembly" scenario_node]
  obtain log' r' where
    res': "get_branch_instr (Map.empty :: nat disassembly) scenario_node = Inr (log', r')"
    and first': "\<forall>a b rest. out_branches scenario_node = (a, b) # rest \<longrightarrow>
        r' = instr_at (Map.empty :: nat disassembly) a"
    by blast
  have r': "r' = None"
    using first' [rule_format, OF o] j by simp
  from res warn r res' r' o i j show ?thesis
    by simp
qed

text \<open>
  Claim C9. Frame condition: the pass returns a store with the same nodes (so with every
  \<open>addr\<close> and \<open>size\<close> as before) in which every edge has the \<open>src\<close> and \<open>dst\<close> it had; an
  edge differs from what it was in its \<open>sort\<close> at most.
\<close>

theorem categorize_edges_frame:
  "\<exists>h'. categorize_edges d es h = Inr h' \<and> nodes h' = nodes h \<and>
     (\<forall>e. src (edges h' e) = src (edges h e) \<and> dst (edges h' e) = dst (edges h e) \<and>
          edges h' e = (edges h e)\<lparr>sort_e := sort_of h' e\<rparr>)"
  by (simp add: categorize_edges_char sort_of_def with_verdicts_def split: option.splits)

text \<open>
  Claim C10. An edge whose sort the pass has changed is a \<open>BACK_EDGE\<close> in a group of
  exactly one edge, or a \<open>TRUE_BRANCH\<close> or \<open>FALSE_BRANCH\<close> in a group of exactly two. In a
  group of two, an edge that was no \<open>BACK_EDGE\<close> before is none afterwards; and the edge
  that does not go to the fallthrough address, when the other one does, is a
  \<open>TRUE_BRANCH\<close> whatever its target address is, also when it is at or below the
  source address (a loop latch).
\<close>

theorem categorize_edges_sort_by_group_size:
  "\<exists>h'. categorize_edges d es h = Inr h' \<and>
     (\<forall>e. sort_of h' e \<noteq> sort_of h e \<longrightarrow>
        sort_of h' e = BACK_EDGE \<and> length (out_edges h (src (edges h e)) es) = 1 \<or>
        (sort_of h' e = TRUE_BRANCH \<or> sort_of h' e = FALSE_BRANCH) \<and>
          length (out_edges h (src (edges h e)) es) = 2) \<and>
     (\<forall>e. length (out_edges h (src (edges h e)) es) = 2 \<and> sort_of h e \<noteq> BACK_EDGE \<longrightarrow>
        sort_of h' e \<noteq> BACK_EDGE) \<and>
     (\<forall>n a b. out_edges h n es = [a, b] \<and> dst_addr h a \<noteq> fallthrough_of h n \<and>
        dst_addr h b = fallthrough_of h n \<longrightarrow> sort_of h' a = TRUE_BRANCH) \<and>
     (\<forall>n a b. out_edges h n es = [a, b] \<and> dst_addr h a = fallthrough_of h n \<and>
        dst_addr h b \<noteq> fallthrough_of h n \<longrightarrow> sort_of h' b = TRUE_BRANCH)"
proof -
  let ?h' = "with_verdicts (final_verdict h es) h"
  have v: "verdict h (n, items) e = Some s \<Longrightarrow>
      s = BACK_EDGE \<and> length items = 1 \<or> (s = TRUE_BRANCH \<or> s = FALSE_BRANCH) \<and> length items = 2"
    for n items e s
    by (cases "(h, (n, items), e)" rule: verdict.cases) (auto split: if_splits)
  have c1: "sort_of ?h' e = BACK_EDGE \<and> length (out_edges h (src (edges h e)) es) = 1 \<or>
        (sort_of ?h' e = TRUE_BRANCH \<or> sort_of ?h' e = FALSE_BRANCH) \<and>
          length (out_edges h (src (edges h e)) es) = 2"
    if "sort_of ?h' e \<noteq> sort_of h e" for e
  proof (cases "verdict h (src (edges h e), out_edges h (src (edges h e)) es) e")
    case None
    with that show ?thesis
      by (simp add: sort_of_categorized)
  next
    case (Some s)
    with v [OF Some] show ?thesis
      by (simp add: sort_of_categorized)
  qed
  have c2: "sort_of ?h' e \<noteq> BACK_EDGE"
    if "length (out_edges h (src (edges h e)) es) = 2" and "sort_of h e \<noteq> BACK_EDGE" for e
    using that c1 [of e] by (cases "sort_of ?h' e = sort_of h e") auto
  have c3: "sort_of ?h' a = TRUE_BRANCH"
    if "out_edges h n es = [a, b]" and "dst_addr h a \<noteq> fallthrough_of h n"
      and "dst_addr h b = fallthrough_of h n" for n a b
  proof -
    have "a \<in> set (out_edges h n es)"
      using that(1) by simp
    then have "src (edges h a) = n"
      by (simp add: out_edges_src)
    then show ?thesis
      using that by (auto simp add: sort_of_categorized)
  qed
  have c4: "sort_of ?h' b = TRUE_BRANCH"
    if "out_edges h n es = [a, b]" and "dst_addr h a = fallthrough_of h n"
      and "dst_addr h b \<noteq> fallthrough_of h n" for n a b
  proof -
    have "b \<in> set (out_edges h n es)"
      using that(1) by simp
    then have "src (edges h b) = n"
      by (simp add: out_edges_src)
    then show ?thesis
      using that by (auto simp add: sort_of_categorized)
  qed
  show ?thesis
    unfolding categorize_edges_char using c1 c2 c3 c4 by blast
qed

text \<open>A loop latch: A falls through to B and branches back to L at \<open>0x0800\<close>.\<close>

theorem categorize_edges_sort_by_group_size_witness:
  "out_edges scenario_heap 10 [20, 23] = [20, 23] \<and>
   dst_addr scenario_heap 20 = fallthrough_of scenario_heap 10 \<and>
   dst_addr scenario_heap 23 \<noteq> fallthrough_of scenario_heap 10 \<and>
   dst_addr scenario_heap 23 \<le> src_addr scenario_heap 23 \<and>
   length (out_edges scenario_heap (src (edges scenario_heap 23)) [20, 23]) = 2 \<and>
   (\<exists>h'. categorize_edges (Map.empty :: nat disassembly) [20, 23] scenario_heap = Inr h' \<and>
      sort_of h' 23 = TRUE_BRANCH \<and> sort_of h' 23 \<noteq> sort_of scenario_heap 23)"
proof -
  have o: "out_edges scenario_heap 10 [20, 23] = [20, 23]"
    by (simp add: out_edges_def scenario_src)
  from categorize_edges_sort_by_group_size [of "Map.empty :: nat disassembly" "[20, 23]" scenario_heap]
  obtain h' where r: "categorize_edges (Map.empty :: nat disassembly) [20, 23] scenario_heap = Inr h'"
    and t: "\<forall>n a b. out_edges scenario_heap n [20, 23] = [a, b] \<and>
        dst_addr scenario_heap a = fallthrough_of scenario_heap n \<and>
        dst_addr scenario_heap b \<noteq> fallthrough_of scenario_heap n \<longrightarrow> sort_of h' b = TRUE_BRANCH"
    by blast
  have "sort_of h' 23 = TRUE_BRANCH"
    using t [rule_format, of 10 20 23] o by (simp add: scenario_simps)
  with r o show ?thesis
    by (simp add: scenario_simps)
qed

end
